theory Spec2Isabelle
  imports Main "HOL-Library.Char_ord" "HOL-Library.List_Lexorder" "HOL-Library.Product_Lexorder"
begin

section \<open>JavaScript string and array primitives used by \<open>update-types.ts\<close>\<close>

text \<open>
  Texts are character lists. \<open>String.prototype.endsWith\<close> and \<open>startsWith\<close> compare
  a suffix (prefix) of the receiver with the argument; \<open>substring\<close> clamps both indices
  to the length of the string and swaps them when the first is the larger.
\<close>

definition endsWith :: "string \<Rightarrow> string \<Rightarrow> bool" where
  "endsWith word s = (length s \<le> length word \<and> drop (length word - length s) word = s)"

definition startsWith :: "string \<Rightarrow> string \<Rightarrow> bool" where
  "startsWith word s = (take (length s) word = s)"

definition substring :: "string \<Rightarrow> int \<Rightarrow> int \<Rightarrow> string" where
  "substring word a b =
     (let len = int (length word);
          a' = min (max a 0) len;
          b' = min (max b 0) len;
          from = nat (min a' b');
          to = nat (max a' b')
      in take (to - from) (drop from word))"

text \<open>\<open>Array.prototype.join\<close>: the elements with the separator between neighbours.\<close>

fun join :: "string \<Rightarrow> string list \<Rightarrow> string" where
  "join sep [] = []"
| "join sep [x] = x"
| "join sep (x # y # ys) = x @ sep @ join sep (y # ys)"

text \<open>
  Reading an array at an index: \<open>xs[i]\<close> is \<open>undefined\<close> outside the array (also at
  \<open>-1\<close>), which is \<open>None\<close> here.
\<close>

definition at :: "'a list \<Rightarrow> int \<Rightarrow> 'a option" where
  "at xs i = (if 0 \<le> i \<and> i < int (length xs) then Some (xs ! nat i) else None)"

section \<open>Naming\<close>

text \<open>
  \<open>singular\<close> (lines 14 to 22): three suffix tests in order, \<open>ies\<close>, \<open>es\<close>, \<open>s\<close>.
\<close>

definition singular :: "string \<Rightarrow> string" where
  "singular word =
     (if endsWith word ''ies'' then substring word 0 (int (length word) - 3) @ ''y''
      else if endsWith word ''es'' then substring word 0 (int (length word) - 2) @ ''y''
      else if endsWith word ''s'' then substring word 0 (int (length word) - 1)
      else word)"

text \<open>
  Modelled from the spec: \<open>upperFirst(camelCase(word))\<close> is imported from the lodash
  library, which is not part of the sources. The specification describes it as
  \<open>toIdentifier\<close>: split the word on separators, uppercase the first letter of each
  segment, concatenate. A separator is taken to be any character that is neither an
  ASCII letter nor a digit. The generators below take this function as a parameter;
  \<open>toIdentifier\<close> instantiates it where a concrete run is evaluated.
\<close>

definition isAlnum :: "char \<Rightarrow> bool" where
  "isAlnum c = ((CHR ''a'' \<le> c \<and> c \<le> CHR ''z'') \<or> (CHR ''A'' \<le> c \<and> c \<le> CHR ''Z'')
                \<or> (CHR ''0'' \<le> c \<and> c \<le> CHR ''9''))"

definition upperChar :: "char \<Rightarrow> char" where
  "upperChar c = (if CHR ''a'' \<le> c \<and> c \<le> CHR ''z'' then char_of (of_char c - (32::nat)) else c)"

fun segments :: "bool \<Rightarrow> string \<Rightarrow> string" where
  "segments first [] = []"
| "segments first (c # cs) =
     (if isAlnum c then (if first then upperChar c else c) # segments False cs
      else segments True cs)"

definition toIdentifier :: "string \<Rightarrow> string" where
  "toIdentifier word = segments True word"

section \<open>Catalog rows\<close>

text \<open>
  The first query returns one row per enum label, \<open>typname as key\<close> and
  \<open>enumlabel as value\<close> (the field is \<open>val\<close> here); the \<open>then\<close> callback adds
  \<open>name\<close>, the identifier made from the key.
\<close>

record enum_row =
  key :: string
  val :: string

record enum = enum_row +
  name :: string

definition withNames :: "(string \<Rightarrow> string) \<Rightarrow> enum_row list \<Rightarrow> enum list" where
  "withNames toId rows = map (\<lambda>x. \<lparr>key = key x, val = val x, name = toId (key x)\<rparr>) rows"

text \<open>
  The second query returns one row per column: \<open>table_name as table\<close>,
  \<open>column_name as col\<close>, \<open>is_nullable as null\<close> (the text \<open>YES\<close> or \<open>NO\<close>),
  \<open>data_type as type\<close> and \<open>udt_name as udt\<close>.
\<close>

record column =
  table :: string
  col :: string
  null :: string
  type :: string
  udt :: string

section \<open>Enum declarations (lines 39 to 48)\<close>

text \<open>\<open>x.value.replace(/[.-]/g, "_")\<close>: every dot and every hyphen becomes an underscore.\<close>

definition memberKey :: "string \<Rightarrow> string" where
  "memberKey v = map (\<lambda>c. if c = CHR ''.'' \<or> c = CHR ''-'' then CHR ''_'' else c) v"

definition enumOpen :: "enum \<Rightarrow> string" where
  "enumOpen x = ''export enum '' @ name x @ '' {''"

definition enumMember :: "'a enum_row_scheme \<Rightarrow> string" where
  "enumMember x = ''  '' @ memberKey (val x) @ '' = '' @ [CHR 0x22] @ val x @ [CHR 0x22] @ '',''"

definition enumClose :: "string" where
  "enumClose = ''}\<newline>''"

text \<open>
  One pass of the \<open>forEach\<close> callback at index \<open>i\<close>, on the \<open>lines\<close> pushed so far.
  \<open>enums[i - 1]?.key\<close> is \<open>undefined\<close> at the first row and \<open>enums[i + 1]?.key\<close> at
  the last one, and \<open>undefined\<close> differs from every key.
\<close>

definition enumStep :: "enum list \<Rightarrow> string list \<Rightarrow> nat \<Rightarrow> string list" where
  "enumStep enums lines i =
     (let x = enums ! i;
          lines1 = (if map_option key (at enums (int i - 1)) \<noteq> Some (key x)
                    then lines @ [enumOpen x] else lines);
          lines2 = lines1 @ [enumMember x];
          lines3 = (if map_option key (at enums (int i + 1)) \<noteq> Some (key x)
                    then lines2 @ [enumClose] else lines2)
      in lines3)"

definition enumLines :: "enum list \<Rightarrow> string list" where
  "enumLines enums = foldl (enumStep enums) [] [0..<length enums]"

section \<open>Record types (lines 66 to 92)\<close>

definition recordName :: "(string \<Rightarrow> string) \<Rightarrow> string \<Rightarrow> string" where
  "recordName toId t = singular (toId t)"

definition recordOpen :: "(string \<Rightarrow> string) \<Rightarrow> column \<Rightarrow> string" where
  "recordOpen toId x = ''export type '' @ recordName toId (table x) @ '' = {''"

definition nullableSuffix :: "column \<Rightarrow> string" where
  "nullableSuffix x = (if null x = ''YES'' then '' | null'' else [])"

text \<open>
  The conditional chain that picks the TypeScript type. The last test but one is
  \<open>enums.some\<close> followed by \<open>enums.find(...)?.name\<close>, whose value is \<open>undefined\<close>
  (\<open>None\<close>) when \<open>find\<close> finds no row.
\<close>

definition columnType :: "enum list \<Rightarrow> column \<Rightarrow> string option" where
  "columnType enums x =
     (if type x \<in> set [''integer'', ''numeric'', ''decimal''] then Some ''number''
      else if type x = ''boolean'' then Some ''boolean''
      else if type x = ''jsonb'' then Some ''any''
      else if type x = ''ARRAY'' \<and> udt x = ''_text'' then Some ''string[]''
      else if startsWith (type x) ''timestamp'' \<or> type x = ''date'' then Some ''Date''
      else if type x = ''USER-DEFINED'' \<and> list_ex (\<lambda>e. key e = udt x) enums
           then map_option name (find (\<lambda>e. key e = udt x) enums)
      else Some ''string'')"

text \<open>A template literal prints \<open>undefined\<close> as the word itself.\<close>

definition interpolate :: "string option \<Rightarrow> string" where
  "interpolate v = (case v of None \<Rightarrow> ''undefined'' | Some s \<Rightarrow> s)"

definition recordField :: "enum list \<Rightarrow> column \<Rightarrow> string" where
  "recordField enums x =
     ''  '' @ col x @ '': '' @ interpolate (columnType enums x) @ nullableSuffix x @ '';''"

definition recordClose :: "string" where
  "recordClose = ''};\<newline>''"

definition recordStep ::
  "(string \<Rightarrow> string) \<Rightarrow> enum list \<Rightarrow> column list \<Rightarrow> string list \<Rightarrow> nat \<Rightarrow> string list" where
  "recordStep toId enums columns lines i =
     (let x = columns ! i;
          lines1 = (if map_option table (at columns (int i - 1)) \<noteq> Some (table x)
                    then lines @ [recordOpen toId x] else lines);
          lines2 = lines1 @ [recordField enums x];
          lines3 = (if map_option table (at columns (int i + 1)) \<noteq> Some (table x)
                    then lines2 @ [recordClose] else lines2)
      in lines3)"

definition recordLines :: "(string \<Rightarrow> string) \<Rightarrow> enum list \<Rightarrow> column list \<Rightarrow> string list" where
  "recordLines toId enums columns = foldl (recordStep toId enums columns) [] [0..<length columns]"

section \<open>The generated text\<close>

text \<open>
  Both loops push to the same \<open>lines\<close> array, the enum loop first; the text spliced into
  the file is \<open>lines.join("\n")\<close>.
\<close>

definition generatedLines :: "(string \<Rightarrow> string) \<Rightarrow> enum_row list \<Rightarrow> column list \<Rightarrow> string list" where
  "generatedLines toId rows columns =
     (let enums = withNames toId rows
      in enumLines enums @ recordLines toId enums columns)"

definition generatedText :: "(string \<Rightarrow> string) \<Rightarrow> enum_row list \<Rightarrow> column list \<Rightarrow> string" where
  "generatedText toId rows columns = join ''\<newline>'' (generatedLines toId rows columns)"

section \<open>Splicing the text into the file (lines 94 to 106)\<close>

text \<open>
  The pattern is \<open>/^export default db;([\s\S]+)/m\<close>. With the \<open>m\<close> flag, \<open>^\<close> holds at
  the start of the text and after a line terminator; the group takes one character or
  more, of any kind, and being greedy it runs to the end of the text. \<open>findAnchor\<close>
  returns the leftmost position where the pattern matches. Texts are lists of 8-bit
  characters, so of the line terminators only the line feed and the carriage return
  occur.
\<close>

definition anchor :: "string" where
  "anchor = ''export default db;''"

definition isLineTerminator :: "char \<Rightarrow> bool" where
  "isLineTerminator c = (c = CHR 0x0A \<or> c = CHR 0x0D)"

fun findFrom :: "bool \<Rightarrow> string \<Rightarrow> nat option" where
  "findFrom lineStart [] = None"
| "findFrom lineStart (c # cs) =
     (if lineStart \<and> startsWith (c # cs) anchor \<and> length anchor < length (c # cs) then Some 0
      else map_option Suc (findFrom (isLineTerminator c) cs))"

definition findAnchor :: "string \<Rightarrow> nat option" where
  "findAnchor source = findFrom True source"

text \<open>
  \<open>String.prototype.replace\<close> with a replacement text expands the dollar patterns of
  that text: \<open>$$\<close> is a dollar sign, \<open>$&\<close> the matched text, \<open>$`\<close> the text before the
  match, \<open>$'\<close> the text after it, and with one group \<open>$1\<close> and \<open>$01\<close> are the group.
  Every other character, a dollar sign included, stands for itself.
\<close>

fun getSubstitution :: "string \<Rightarrow> string \<Rightarrow> string \<Rightarrow> string \<Rightarrow> string \<Rightarrow> string" where
  "getSubstitution matched pre post group1 (x # y # r) =
     (if x = CHR ''$'' \<and> y = CHR ''$'' then CHR ''$'' # getSubstitution matched pre post group1 r
      else if x = CHR ''$'' \<and> y = CHR ''&'' then matched @ getSubstitution matched pre post group1 r
      else if x = CHR ''$'' \<and> y = CHR 0x60 then pre @ getSubstitution matched pre post group1 r
      else if x = CHR ''$'' \<and> y = CHR 0x27 then post @ getSubstitution matched pre post group1 r
      else if x = CHR ''$'' \<and> y = CHR ''1'' then group1 @ getSubstitution matched pre post group1 r
      else if x = CHR ''$'' \<and> y = CHR ''0'' \<and> take 1 r = ''1''
           then group1 @ getSubstitution matched pre post group1 (drop 1 r)
      else x # getSubstitution matched pre post group1 (y # r))"
| "getSubstitution matched pre post group1 template = template"

definition banner :: "string" where
  "banner = ''export default db;\<newline>\<newline>''
     @ ''// The TypeScript definitions below are automatically generated.\<newline>''
     @ ''// Do not touch them, or risk, your modifications being lost.\<newline>\<newline>''"

text \<open>
  \<open>replace\<close> leaves a text without a match as it is. Where the pattern matches at
  position \<open>i\<close>, the match is the rest of the text from \<open>i\<close> and the group is what follows
  the anchor; nothing follows the match.
\<close>

definition patch :: "string \<Rightarrow> string \<Rightarrow> string" where
  "patch source generated =
     (case findAnchor source of
        None \<Rightarrow> source
      | Some i \<Rightarrow> take i source
          @ getSubstitution (drop i source) (take i source) [] (drop (i + length anchor) source)
              (banner @ generated))"

section \<open>The run\<close>

text \<open>
  What a run reads and changes: the results of the two catalog queries (a query may
  reject), the content of \<open>src/db.ts\<close> (\<open>None\<close> when it cannot be read), whether the file
  can be written, the texts written so far, whether the connection pool is open, the
  error stream and the exit code.
\<close>

datatype error = QueryError | ReadError | WriteError

record world =
  enumQuery :: "error + enum_row list"
  columnQuery :: "error + column list"
  fileText :: "string option"
  writable :: bool
  writes :: "string list"
  connected :: bool
  stderr :: "error list"
  exitCode :: "nat option"

text \<open>
  \<open>updateTypes\<close>, in two parts. \<open>generate\<close> is the part up to line 92: both queries and
  the text built from their rows; a rejected query rejects the promise (\<open>Inl\<close>).
\<close>

definition generate :: "(string \<Rightarrow> string) \<Rightarrow> world \<Rightarrow> error + string" where
  "generate toId w =
     (case enumQuery w of
        Inl e \<Rightarrow> Inl e
      | Inr rows \<Rightarrow>
          (case columnQuery w of
             Inl e \<Rightarrow> Inl e
           | Inr columns \<Rightarrow> Inr (generatedText toId rows columns)))"

text \<open>
  The rest reads the file, replaces and writes; a failing file operation throws.
  Nothing in it tests whether the pattern matched.
\<close>

definition updateTypes :: "(string \<Rightarrow> string) \<Rightarrow> world \<Rightarrow> (error + unit) \<times> world" where
  "updateTypes toId w =
     (case generate toId w of
        Inl e \<Rightarrow> (Inl e, w)
      | Inr generated \<Rightarrow>
          (case fileText w of
             None \<Rightarrow> (Inl ReadError, w)
           | Some text \<Rightarrow>
               (let source = patch text generated
                in if writable w
                   then (Inr (), w\<lparr>fileText := Some source, writes := writes w @ [source]\<rparr>)
                   else (Inl WriteError, w))))"

text \<open>
  The last statement: \<open>updateTypes().catch(...).finally(() => db.destroy())\<close>. The
  \<open>catch\<close> callback prints the error and calls \<open>process.exit(1)\<close>, which ends the process
  there, so the \<open>finally\<close> callback runs only post a run that succeeded.
\<close>

definition main :: "(string \<Rightarrow> string) \<Rightarrow> world \<Rightarrow> world" where
  "main toId w =
     (case updateTypes toId w of
        (Inl err, w') \<Rightarrow> w'\<lparr>stderr := stderr w' @ [err], exitCode := Some 1\<rparr>
      | (Inr u, w') \<Rightarrow> w'\<lparr>connected := False, exitCode := Some 0\<rparr>)"

section \<open>The specification's reading of the output\<close>

text \<open>
  The rule table of the type mapper as the specification words it: seven rules in
  order, on the SQL type, the underlying type name and the enum rows read from the
  catalog, then the null marker for a nullable column. The display name of an enum is
  the identifier made from its key.
\<close>

definition specBaseType :: "(string \<Rightarrow> string) \<Rightarrow> enum_row list \<Rightarrow> string \<Rightarrow> string \<Rightarrow> string" where
  "specBaseType toId rows sqlType udtName =
     (if sqlType = ''integer'' \<or> sqlType = ''numeric'' \<or> sqlType = ''decimal'' then ''number''
      else if sqlType = ''boolean'' then ''boolean''
      else if sqlType = ''jsonb'' then ''any''
      else if sqlType = ''ARRAY'' \<and> udtName = ''_text'' then ''string[]''
      else if take 9 sqlType = ''timestamp'' \<or> sqlType = ''date'' then ''Date''
      else if sqlType = ''USER-DEFINED'' \<and> udtName \<in> key ` set rows then toId udtName
      else ''string'')"

definition specTypeExpr ::
  "(string \<Rightarrow> string) \<Rightarrow> enum_row list \<Rightarrow> string \<Rightarrow> string \<Rightarrow> bool \<Rightarrow> string" where
  "specTypeExpr toId rows sqlType udtName nullable =
     specBaseType toId rows sqlType udtName @ (if nullable then '' | null'' else [])"

text \<open>
  A declaration block for one key: the opening line, one line for each row of that key
  in the order of the rows, the closing line.
\<close>

definition enumBlock :: "(string \<Rightarrow> string) \<Rightarrow> enum_row list \<Rightarrow> string \<Rightarrow> string list" where
  "enumBlock toId rows k =
     (''export enum '' @ toId k @ '' {'')
       # map (\<lambda>r. ''  '' @ memberKey (val r) @ '' = '' @ [CHR 0x22] @ val r @ [CHR 0x22] @ '','')
           (filter (\<lambda>r. key r = k) rows)
       @ [''}\<newline>'']"

definition recordBlock ::
  "(string \<Rightarrow> string) \<Rightarrow> enum_row list \<Rightarrow> column list \<Rightarrow> string \<Rightarrow> string list" where
  "recordBlock toId rows columns t =
     (''export type '' @ singular (toId t) @ '' = {'')
       # map (recordField (withNames toId rows)) (filter (\<lambda>c. table c = t) columns)
       @ [''};\<newline>'']"

text \<open>The text of a sequence of blocks: the lines of all blocks, joined by line feeds.\<close>

definition document :: "string list list \<Rightarrow> string" where
  "document blocks = join ''\<newline>'' (map (join ''\<newline>'') blocks)"

text \<open>The lines of the output that declare a member: they start with two spaces.\<close>

definition isMemberLine :: "string \<Rightarrow> bool" where
  "isMemberLine l = startsWith l ''  ''"


section \<open>The block loop as a recursion\<close>

text \<open>
  Both \<open>forEach\<close> loops have one shape: at each row, an opening line when the key
  differs from the key of the row before, the line of the row, a closing line when the
  key differs from the key of the row after. \<open>loopStep\<close> is that callback, \<open>runs\<close> the
  same pass as a recursion on the rows that carries the key before, and \<open>groups\<close> cuts
  the rows into maximal runs of one key.
\<close>

definition loopStep ::
  "('a \<Rightarrow> 'k) \<Rightarrow> ('a \<Rightarrow> string) \<Rightarrow> ('a \<Rightarrow> string) \<Rightarrow> string
     \<Rightarrow> 'a list \<Rightarrow> string list \<Rightarrow> nat \<Rightarrow> string list" where
  "loopStep f opn body cls xs lines i =
     (if map_option f (at xs (int i - 1)) \<noteq> Some (f (xs ! i)) then lines @ [opn (xs ! i)] else lines)
       @ [body (xs ! i)]
       @ (if map_option f (at xs (int i + 1)) \<noteq> Some (f (xs ! i)) then [cls] else [])"

fun runs ::
  "('a \<Rightarrow> 'k) \<Rightarrow> ('a \<Rightarrow> string) \<Rightarrow> ('a \<Rightarrow> string) \<Rightarrow> string
     \<Rightarrow> 'k option \<Rightarrow> 'a list \<Rightarrow> string list" where
  "runs f opn body cls prev [] = []"
| "runs f opn body cls prev (x # xs) =
     (if prev \<noteq> Some (f x) then [opn x] else []) @ [body x]
       @ (if map_option f (at xs 0) \<noteq> Some (f x) then [cls] else [])
       @ runs f opn body cls (Some (f x)) xs"

fun groups :: "('a \<Rightarrow> 'k) \<Rightarrow> 'a list \<Rightarrow> 'a list list" where
  "groups f [] = []"
| "groups f (x # xs) =
     (case groups f xs of
        [] \<Rightarrow> [[x]]
      | g # gs \<Rightarrow> if f (hd g) = f x then (x # g) # gs else [x] # g # gs)"

definition blockOf :: "('a \<Rightarrow> string) \<Rightarrow> ('a \<Rightarrow> string) \<Rightarrow> string \<Rightarrow> 'a list \<Rightarrow> string list" where
  "blockOf opn body cls g = opn (hd g) # map body g @ [cls]"

section \<open>Sample catalogs and runs\<close>

definition sampleEnums :: "enum_row list" where
  "sampleEnums =
     [\<lparr>key = ''status_type'', val = ''a-b''\<rparr>,
      \<lparr>key = ''status_type'', val = ''a.b''\<rparr>,
      \<lparr>key = ''unit'', val = ''kg''\<rparr>]"

definition sampleColumns :: "(nat \<times> column) list" where
  "sampleColumns =
     [(1, \<lparr>table = ''invoices'', col = ''id'', null = ''NO'', type = ''integer'', udt = ''int4''\<rparr>),
      (2, \<lparr>table = ''invoices'', col = ''status'', null = ''YES'', type = ''USER-DEFINED'',
           udt = ''status_type''\<rparr>),
      (1, \<lparr>table = ''x_s'', col = ''at'', null = ''NO'', type = ''timestamp with time zone'',
           udt = ''timestamptz''\<rparr>)]"

definition sampleWorld :: "string \<Rightarrow> world" where
  "sampleWorld text =
     \<lparr>enumQuery = Inr sampleEnums, columnQuery = Inr (map snd sampleColumns),
      fileText = Some text, writable = True, writes = [], connected = True,
      stderr = [], exitCode = None\<rparr>"

definition failingWorld :: "world" where
  "failingWorld = (sampleWorld ''export default db;\<newline>'')\<lparr>enumQuery := Inl QueryError\<rparr>"


section \<open>Array reads and the loop\<close>

lemma at_before:
  "at (pre @ x # xs) (int (length pre) - 1) = (if pre = [] then None else Some (last pre))"
  by (cases pre rule: rev_cases) (auto simp: at_def nth_append)

lemma at_after:
  "at (pre @ x # xs) (int (length pre) + 1) = at xs 0"
  by (auto simp: at_def nth_append nat_add_distrib)

lemma at_zero: "at xs 0 = (case xs of [] \<Rightarrow> None | y # ys \<Rightarrow> Some y)"
  by (cases xs) (auto simp: at_def)

lemma loop_runs_from:
  "foldl (loopStep f opn body cls (pre @ xs)) acc [length pre..<length pre + length xs]
     = acc @ runs f opn body cls (if pre = [] then None else Some (f (last pre))) xs"
proof (induction xs arbitrary: pre acc)
  case Nil
  then show ?case by simp
next
  case (Cons x xs)
  have upt: "[length pre..<length pre + length (x # xs)]
               = length pre # [length (pre @ [x])..<length (pre @ [x]) + length xs]"
    by (subst upt_rec) simp
  have step: "loopStep f opn body cls (pre @ x # xs) acc (length pre)
      = acc @ (if (if pre = [] then None else Some (f (last pre))) \<noteq> Some (f x) then [opn x] else [])
          @ [body x] @ (if map_option f (at xs 0) \<noteq> Some (f x) then [cls] else [])"
    by (simp add: loopStep_def at_before at_after)
  have "foldl (loopStep f opn body cls (pre @ x # xs)) acc [length pre..<length pre + length (x # xs)]
      = foldl (loopStep f opn body cls ((pre @ [x]) @ xs))
          (loopStep f opn body cls (pre @ x # xs) acc (length pre))
          [length (pre @ [x])..<length (pre @ [x]) + length xs]"
    unfolding upt by simp
  also have "\<dots> = loopStep f opn body cls (pre @ x # xs) acc (length pre)
                    @ runs f opn body cls (Some (f x)) xs"
    using Cons.IH [of "pre @ [x]"] by simp
  finally show ?case
    unfolding step by simp
qed

lemma loop_runs:
  "foldl (loopStep f opn body cls xs) [] [0..<length xs] = runs f opn body cls None xs"
  using loop_runs_from [of f opn body cls "[]" xs "[]"] by simp

lemma groups_hd:
  "groups f xs = g # gs \<Longrightarrow> g \<noteq> [] \<and> hd g = hd xs \<and> xs \<noteq> []"
  by (cases xs) (auto split: list.splits if_splits)

lemma runs_groups_from:
  "runs f opn body cls prev xs =
     (case groups f xs of
        [] \<Rightarrow> []
      | g # gs \<Rightarrow> (if prev \<noteq> Some (f (hd g)) then [opn (hd g)] else []) @ map body g @ [cls]
                    @ concat (map (blockOf opn body cls) gs))"
proof (induction xs arbitrary: prev)
  case Nil
  then show ?case by simp
next
  case (Cons x xs)
  show ?case
  proof (cases "groups f xs")
    case Nil
    then have "xs = []" by (cases xs) (auto split: list.splits if_splits)
    then show ?thesis by (simp add: at_zero)
  next
    case (Cons g gs)
    from groups_hd [OF Cons] obtain y ys where xs: "xs = y # ys" and g: "g \<noteq> []" "hd g = y"
      by (cases xs) auto
    show ?thesis
      using Cons.IH [of "Some (f x)"] Cons g xs
      by (auto simp: at_zero blockOf_def)
  qed
qed

lemma runs_groups:
  "runs f opn body cls None xs = concat (map (blockOf opn body cls) (groups f xs))"
  by (simp add: runs_groups_from blockOf_def split: list.splits)

lemma loop_groups:
  "foldl (loopStep f opn body cls xs) [] [0..<length xs]
     = concat (map (blockOf opn body cls) (groups f xs))"
  by (simp add: loop_runs runs_groups)

lemma sorted_remdups_adj_distinct:
  fixes ks :: "'k::linorder list"
  shows "sorted ks \<Longrightarrow> distinct (remdups_adj ks)"
  by (induction ks rule: remdups_adj.induct) auto

lemma groups_sorted:
  fixes f :: "'a \<Rightarrow> 'k::linorder"
  shows "sorted (map f xs) \<Longrightarrow>
     groups f xs = map (\<lambda>k. filter (\<lambda>x. f x = k) xs) (remdups_adj (map f xs))"
proof (induction xs)
  case Nil
  then show ?case by simp
next
  case (Cons x xs)
  show ?case
  proof (cases xs)
    case Nil
    then show ?thesis by simp
  next
    case (Cons y ys)
    have sorted: "sorted (map f xs)" and le: "\<forall>z\<in>set xs. f x \<le> f z"
      using Cons.prems by auto
    have IH: "groups f xs = map (\<lambda>k. filter (\<lambda>x. f x = k) xs) (remdups_adj (map f xs))"
      using Cons.IH sorted by simp
    have dist: "distinct (remdups_adj (map f xs))"
      using sorted by (rule sorted_remdups_adj_distinct)
    obtain rest where rest: "remdups_adj (map f xs) = f y # rest"
      using Cons by (metis list.simps(9) remdups_adj_Cons_alt)
    have grp: "groups f xs = filter (\<lambda>x. f x = f y) xs # map (\<lambda>k. filter (\<lambda>x. f x = k) xs) rest"
      using IH rest by simp
    have hd: "hd (filter (\<lambda>x. f x = f y) xs) = y"
      using Cons by simp
    show ?thesis
    proof (cases "f y = f x")
      case True
      have notin: "f x \<notin> set rest" using dist rest True by auto
      have "map (\<lambda>k. filter (\<lambda>z. f z = k) (x # xs)) rest = map (\<lambda>k. filter (\<lambda>z. f z = k) xs) rest"
        using notin by (intro map_cong) auto
      moreover have "remdups_adj (map f (x # xs)) = f y # rest"
        using rest True Cons by simp
      ultimately show ?thesis
        using grp hd True by simp
    next
      case False
      have lt: "\<forall>z\<in>set xs. f x \<noteq> f z"
      proof
        fix z assume z: "z \<in> set xs"
        have "f y \<le> f z" using sorted Cons z by auto
        moreover have "f x \<le> f y" using le Cons by simp
        ultimately show "f x \<noteq> f z" using False by auto
      qed
      have nil: "filter (\<lambda>z. f z = f x) xs = []"
        using lt by (auto simp: filter_empty_conv)
      have same: "map (\<lambda>k. filter (\<lambda>z. f z = k) (x # xs)) (remdups_adj (map f xs))
              = map (\<lambda>k. filter (\<lambda>z. f z = k) xs) (remdups_adj (map f xs))"
        using lt by (intro map_cong) auto
      have keys: "remdups_adj (map f (x # xs)) = f x # remdups_adj (map f xs)"
        using False Cons by simp
      have "groups f (x # xs) = [x] # groups f xs"
        using grp hd False by simp
      also have "\<dots> = filter (\<lambda>z. f z = f x) (x # xs)
                      # map (\<lambda>k. filter (\<lambda>z. f z = k) (x # xs)) (remdups_adj (map f xs))"
        unfolding same IH using nil by simp
      finally show ?thesis
        unfolding keys by simp
    qed
  qed
qed

section \<open>Naming laws\<close>

text \<open>
  C5, as the code has it: \<open>singular\<close> maps \<open>categories\<close> to \<open>category\<close>, \<open>users\<close> to
  \<open>user\<close>, \<open>data\<close> to itself, and \<open>addresses\<close> to \<open>addressy\<close>: the second rule cuts
  \<open>es\<close> and appends \<open>y\<close>.
\<close>

theorem singular_unit_laws:
  "singular ''categories'' = ''category'' \<and> singular ''addresses'' = ''addressy''
     \<and> singular ''users'' = ''user'' \<and> singular ''data'' = ''data''"
  by (simp add: singular_def endsWith_def substring_def)

text \<open>C5 as stated gives \<open>addres\<close> for \<open>addresses\<close>; the code does not.\<close>

theorem singular_addresses_counterexample:
  "\<not> (singular ''categories'' = ''category'' \<and> singular ''addresses'' = ''addres''
       \<and> singular ''users'' = ''user'' \<and> singular ''data'' = ''data'')"
  by (simp add: singular_def endsWith_def substring_def)

section \<open>The two loops as blocks\<close>

lemma enumLines_groups:
  "enumLines enums = concat (map (blockOf enumOpen enumMember enumClose) (groups key enums))"
proof -
  have "enumStep enums = loopStep key enumOpen enumMember enumClose enums"
    by (simp add: fun_eq_iff enumStep_def loopStep_def Let_def)
  then show ?thesis
    by (simp add: enumLines_def loop_groups)
qed

lemma recordLines_groups:
  "recordLines toId enums columns
     = concat (map (blockOf (recordOpen toId) (recordField enums) recordClose) (groups table columns))"
proof -
  have "recordStep toId enums columns
          = loopStep table (recordOpen toId) (recordField enums) recordClose columns"
    by (simp add: fun_eq_iff recordStep_def loopStep_def Let_def)
  then show ?thesis
    by (simp add: recordLines_def loop_groups)
qed

lemma key_withNames [simp]: "map key (withNames toId rows) = map key rows"
  by (simp add: withNames_def comp_def)

lemma enumMember_withNames [simp]: "map enumMember (withNames toId rows) = map enumMember rows"
  by (simp add: withNames_def comp_def enumMember_def)

lemma filter_withNames:
  "filter (\<lambda>e. key e = k) (withNames toId rows) = withNames toId (filter (\<lambda>r. key r = k) rows)"
  by (simp add: withNames_def filter_map comp_def)

lemma enum_blockOf:
  assumes "k \<in> key ` set rows"
  shows "blockOf enumOpen enumMember enumClose (filter (\<lambda>e. key e = k) (withNames toId rows))
           = enumBlock toId rows k"
proof -
  let ?g = "filter (\<lambda>r. key r = k) rows"
  from assms have ne: "?g \<noteq> []" by (auto simp: filter_empty_conv)
  then have "hd ?g \<in> set ?g" by (rule hd_in_set)
  then have k: "key (hd ?g) = k" by simp
  have n: "name (hd (withNames toId ?g)) = toId k"
    using ne k by (simp add: withNames_def hd_map)
  have m: "map enumMember (withNames toId ?g)
             = map (\<lambda>r. ''  '' @ memberKey (val r) @ '' = '' @ [CHR 0x22] @ val r @ [CHR 0x22] @ '','') ?g"
    by (simp add: withNames_def comp_def enumMember_def)
  show ?thesis
    unfolding blockOf_def filter_withNames enumOpen_def enumClose_def enumBlock_def n m ..
qed

lemma enumLines_blocks:
  assumes "sorted (map key rows)"
  shows "enumLines (withNames toId rows)
           = concat (map (enumBlock toId rows) (remdups_adj (map key rows)))"
proof -
  have g: "groups key (withNames toId rows)
          = map (\<lambda>k. filter (\<lambda>e. key e = k) (withNames toId rows)) (remdups_adj (map key rows))"
    using groups_sorted [of key "withNames toId rows"] assms by simp
  have m: "map (\<lambda>k. blockOf enumOpen enumMember enumClose
                        (filter (\<lambda>e. key e = k) (withNames toId rows))) (remdups_adj (map key rows))
                   = map (enumBlock toId rows) (remdups_adj (map key rows))"
    by (rule map_cong) (auto simp: enum_blockOf)
  have "enumLines (withNames toId rows)
          = concat (map (\<lambda>k. blockOf enumOpen enumMember enumClose
                        (filter (\<lambda>e. key e = k) (withNames toId rows))) (remdups_adj (map key rows)))"
    by (simp only: enumLines_groups g map_map comp_def)
  then show ?thesis
    by (simp only: m)
qed

lemma record_blockOf:
  assumes "t \<in> table ` set columns"
  shows "blockOf (recordOpen toId) (recordField (withNames toId rows)) recordClose
           (filter (\<lambda>c. table c = t) columns) = recordBlock toId rows columns t"
proof -
  let ?g = "filter (\<lambda>c. table c = t) columns"
  from assms have ne: "?g \<noteq> []" by (auto simp: filter_empty_conv)
  then have "hd ?g \<in> set ?g" by (rule hd_in_set)
  then have "table (hd ?g) = t" by simp
  then show ?thesis
    by (simp add: blockOf_def recordOpen_def recordName_def recordClose_def recordBlock_def)
qed

lemma recordLines_blocks:
  assumes "sorted (map table columns)"
  shows "recordLines toId (withNames toId rows) columns
           = concat (map (recordBlock toId rows columns) (remdups_adj (map table columns)))"
proof -
  have m: "map (\<lambda>t. blockOf (recordOpen toId) (recordField (withNames toId rows)) recordClose
                        (filter (\<lambda>c. table c = t) columns)) (remdups_adj (map table columns))
                   = map (recordBlock toId rows columns) (remdups_adj (map table columns))"
    by (rule map_cong) (auto simp: record_blockOf)
  have "recordLines toId (withNames toId rows) columns
          = concat (map (\<lambda>t. blockOf (recordOpen toId) (recordField (withNames toId rows)) recordClose
                        (filter (\<lambda>c. table c = t) columns)) (remdups_adj (map table columns)))"
    by (simp only: recordLines_groups groups_sorted [OF assms] map_map comp_def)
  then show ?thesis
    by (simp only: m)
qed

lemma enumLines_runs:
  "enumLines enums = runs key enumOpen enumMember enumClose None enums"
proof -
  have "enumStep enums = loopStep key enumOpen enumMember enumClose enums"
    by (simp add: fun_eq_iff enumStep_def loopStep_def Let_def)
  then show ?thesis
    by (simp add: enumLines_def loop_runs)
qed

lemma member_lines_of_runs:
  "filter isMemberLine (runs key enumOpen enumMember enumClose prev enums) = map enumMember enums"
  by (induction enums arbitrary: prev)
    (simp_all add: isMemberLine_def startsWith_def enumOpen_def enumMember_def enumClose_def)

lemma enumMember_inj:
  assumes "enumMember a = enumMember b"
  shows "val a = val b"
proof -
  let ?q = "CHR 0x22 # '',''"
  have len: "length (memberKey v) = length v" for v
    by (simp add: memberKey_def)
  from assms have eq: "memberKey (val a) @ ('' = '' @ [CHR 0x22] @ val a @ ?q)
                     = memberKey (val b) @ ('' = '' @ [CHR 0x22] @ val b @ ?q)"
    by (simp add: enumMember_def)
  then have "length (memberKey (val a) @ ('' = '' @ [CHR 0x22] @ val a @ ?q))
           = length (memberKey (val b) @ ('' = '' @ [CHR 0x22] @ val b @ ?q))"
    by (rule arg_cong)
  then have "length (val a) = length (val b)"
    by (simp add: len)
  then have "length (memberKey (val a)) = length (memberKey (val b))"
    by (simp add: len)
  with eq have "'' = '' @ [CHR 0x22] @ val a @ ?q = '' = '' @ [CHR 0x22] @ val b @ ?q"
    by (metis append_eq_append_conv)
  then show ?thesis by simp
qed

lemma block_in_concat:
  "k \<in> set ks \<Longrightarrow> \<exists>pre post. concat (map b ks) = pre @ b k @ post"
proof -
  assume "k \<in> set ks"
  then obtain ys zs where "ks = ys @ k # zs" by (auto dest: split_list)
  then have "concat (map b ks) = concat (map b ys) @ b k @ concat (map b zs)" by simp
  then show ?thesis by blast
qed

lemma find_withNames:
  "r \<in> set rows \<Longrightarrow>
     map_option name (find (\<lambda>e. key e = key r) (withNames toId rows)) = Some (toId (key r))"
  by (induction rows) (auto simp: withNames_def)

lemma some_withNames:
  "list_ex (\<lambda>e. key e = k) (withNames toId rows) \<longleftrightarrow> k \<in> key ` set rows"
  by (auto simp: list_ex_iff withNames_def)

lemma startsWith_timestamp:
  "startsWith w ''timestamp'' \<longleftrightarrow> take 9 w = ''timestamp''"
  by (simp add: startsWith_def eval_nat_numeral)

section \<open>Enum declarations\<close>



text \<open>
  C10. Each row gives one member line and none is dropped: the member lines of the
  output are the member lines of the rows, in order. Two rows of one key whose values
  differ only in dots and hyphens both have their line in the block of that key, with
  the same member key and their own values as literals.
\<close>

theorem enum_members_not_deduplicated:
  assumes "sorted (map key rows)" and "i < j" and "j < length rows"
    and "key (rows ! i) = key (rows ! j)"
    and "memberKey (val (rows ! i)) = memberKey (val (rows ! j))"
    and "val (rows ! i) \<noteq> val (rows ! j)"
  shows "filter isMemberLine (enumLines (withNames toId rows)) = map enumMember rows
    \<and> (\<exists>pre post. enumLines (withNames toId rows) = pre @ enumBlock toId rows (key (rows ! i)) @ post)
    \<and> enumMember (rows ! i) \<in> set (enumBlock toId rows (key (rows ! i)))
    \<and> enumMember (rows ! j) \<in> set (enumBlock toId rows (key (rows ! i)))
    \<and> enumMember (rows ! i) \<noteq> enumMember (rows ! j)
    \<and> enumMember (rows ! i)
        = ''  '' @ memberKey (val (rows ! i)) @ '' = '' @ [CHR 0x22] @ val (rows ! i) @ [CHR 0x22] @ '',''
    \<and> enumMember (rows ! j)
        = ''  '' @ memberKey (val (rows ! i)) @ '' = '' @ [CHR 0x22] @ val (rows ! j) @ [CHR 0x22] @ '',''"
proof -
  have i: "rows ! i \<in> set rows" and j: "rows ! j \<in> set rows"
    using assms(2,3) by simp_all
  have a: "filter isMemberLine (enumLines (withNames toId rows)) = map enumMember rows"
    by (simp add: enumLines_runs member_lines_of_runs)
  have "key (rows ! i) \<in> set (remdups_adj (map key rows))"
    using i by simp
  then have b: "\<exists>pre post. enumLines (withNames toId rows)
                  = pre @ enumBlock toId rows (key (rows ! i)) @ post"
    unfolding enumLines_blocks [OF assms(1)] by (rule block_in_concat)
  have c: "enumMember (rows ! i) \<in> set (enumBlock toId rows (key (rows ! i)))"
    using i by (simp add: enumBlock_def enumMember_def image_iff) blast
  have d: "enumMember (rows ! j) \<in> set (enumBlock toId rows (key (rows ! i)))"
    using j assms(4) by (simp add: enumBlock_def enumMember_def image_iff) blast
  have e: "enumMember (rows ! i) \<noteq> enumMember (rows ! j)"
    using assms(6) enumMember_inj by blast
  have f: "enumMember (rows ! j)
        = ''  '' @ memberKey (val (rows ! i)) @ '' = '' @ [CHR 0x22] @ val (rows ! j) @ [CHR 0x22] @ '',''"
    by (simp add: enumMember_def assms(5))
  from a b c d e f show ?thesis
    by (simp add: enumMember_def)
qed

text \<open>The sample rows \<open>a-b\<close> and \<open>a.b\<close> of \<open>status_type\<close> both give \<open>a_b\<close>.\<close>

theorem enum_members_not_deduplicated_witness:
  "sorted (map key sampleEnums) \<and> (0::nat) < 1 \<and> 1 < length sampleEnums
    \<and> key (sampleEnums ! 0) = key (sampleEnums ! 1)
    \<and> memberKey (val (sampleEnums ! 0)) = memberKey (val (sampleEnums ! 1))
    \<and> val (sampleEnums ! 0) \<noteq> val (sampleEnums ! 1)
    \<and> filter isMemberLine (enumLines (withNames toIdentifier sampleEnums))
        = [''  a_b = '' @ [CHR 0x22] @ ''a-b'' @ [CHR 0x22] @ '','',
           ''  a_b = '' @ [CHR 0x22] @ ''a.b'' @ [CHR 0x22] @ '','',
           ''  kg = '' @ [CHR 0x22] @ ''kg'' @ [CHR 0x22] @ '','']"
proof -
  have h1: "sorted (map key sampleEnums)" by (simp add: sampleEnums_def)
  have h2: "(0::nat) < 1" by simp
  have h3: "1 < length sampleEnums" by (simp add: sampleEnums_def)
  have h4: "key (sampleEnums ! 0) = key (sampleEnums ! 1)" by (simp add: sampleEnums_def)
  have h5: "memberKey (val (sampleEnums ! 0)) = memberKey (val (sampleEnums ! 1))"
    by (simp add: sampleEnums_def memberKey_def)
  have h6: "val (sampleEnums ! 0) \<noteq> val (sampleEnums ! 1)" by (simp add: sampleEnums_def)
  have m: "map enumMember sampleEnums
        = [''  a_b = '' @ [CHR 0x22] @ ''a-b'' @ [CHR 0x22] @ '','',
           ''  a_b = '' @ [CHR 0x22] @ ''a.b'' @ [CHR 0x22] @ '','',
           ''  kg = '' @ [CHR 0x22] @ ''kg'' @ [CHR 0x22] @ '','']"
    by (simp add: sampleEnums_def enumMember_def memberKey_def)
  from enum_members_not_deduplicated [OF h1 h2 h3 h4 h5 h6, of toIdentifier]
  have "filter isMemberLine (enumLines (withNames toIdentifier sampleEnums)) = map enumMember sampleEnums"
    by blast
  with h1 h2 h3 h4 h5 h6 m show ?thesis by simp
qed

section \<open>Record types\<close>

text \<open>
  C4, as the code has it. The opening line of each record block names the type
  \<open>singular (toId t)\<close> for the table \<open>t\<close> of the block: the table name is turned into an
  identifier first and the singular rule chain is applied to that identifier.
\<close>

theorem record_name_singular_of_identifier:
  "recordLines toId enums columns
     = concat (map (\<lambda>g. (''export type '' @ singular (toId (table (hd g))) @ '' = {'')
                         # map (recordField enums) g @ [recordClose])
                 (groups table columns))"
  by (simp add: recordLines_groups blockOf_def [abs_def] recordOpen_def recordName_def)

text \<open>
  C4 as stated puts the singular first. For the table \<open>x_s\<close> the code emits \<open>XS\<close>,
  since the identifier \<open>XS\<close> does not end in a lower-case \<open>s\<close>, and the stated order
  gives \<open>X\<close>.
\<close>

theorem record_name_order_counterexample:
  "recordLines toIdentifier []
       [\<lparr>table = ''x_s'', col = ''id'', null = ''NO'', type = ''integer'', udt = ''int4''\<rparr>]
     = [''export type XS = {'', ''  id: number;'', ''};\<newline>'']
   \<and> toIdentifier (singular ''x_s'') = ''X''
   \<and> recordName toIdentifier ''x_s'' \<noteq> toIdentifier (singular ''x_s'')"
  by code_simp

text \<open>
  C2. The type expression written for a column is the one of the rule table of the
  specification, applied to the SQL type, the underlying type name and the enum rows,
  with the null marker appended exactly when the column is nullable (\<open>is_nullable\<close> is
  \<open>YES\<close>).
\<close>

theorem type_expression_matches_rule_table:
  "interpolate (columnType (withNames toId rows) x) @ nullableSuffix x
     = specTypeExpr toId rows (type x) (udt x) (null x = ''YES'')
   \<and> recordField (withNames toId rows) x
     = ''  '' @ col x @ '': '' @ specTypeExpr toId rows (type x) (udt x) (null x = ''YES'') @ '';''"
proof -
  have "columnType (withNames toId rows) x = Some (specBaseType toId rows (type x) (udt x))"
  proof (cases "type x = ''USER-DEFINED'' \<and> udt x \<in> key ` set rows")
    case True
    then obtain r where "r \<in> set rows" and "key r = udt x" by auto
    then have "map_option name (find (\<lambda>e. key e = udt x) (withNames toId rows))
                 = Some (toId (udt x))"
      using find_withNames [of r rows toId] by simp
    with True show ?thesis
      by (simp add: columnType_def specBaseType_def startsWith_timestamp some_withNames)
  next
    case False
    then show ?thesis
      by (auto simp: columnType_def specBaseType_def startsWith_timestamp some_withNames)
  qed
  then show ?thesis
    by (simp add: specTypeExpr_def nullableSuffix_def recordField_def interpolate_def)
qed

text \<open>
  C9. For a column of SQL type \<open>USER-DEFINED\<close> whose underlying type name is the key of
  an enum row, the lookup \<open>find\<close> returns a row, so the type expression is the display
  name of that enum and never \<open>undefined\<close>.
\<close>

theorem enum_lookup_succeeds:
  assumes "type x = ''USER-DEFINED''" and "r \<in> set rows" and "key r = udt x"
  shows "find (\<lambda>e. key e = udt x) (withNames toId rows) \<noteq> None
    \<and> columnType (withNames toId rows) x = Some (toId (key r))
    \<and> interpolate (columnType (withNames toId rows) x) = toId (key r)"
proof -
  have f: "map_option name (find (\<lambda>e. key e = udt x) (withNames toId rows)) = Some (toId (key r))"
    using find_withNames [OF assms(2), of toId] assms(3) by simp
  have "udt x \<in> key ` set rows"
    using assms(2,3) by (metis imageI)
  then have s: "list_ex (\<lambda>e. key e = udt x) (withNames toId rows)"
    by (simp add: some_withNames)
  have c: "columnType (withNames toId rows) x = Some (toId (key r))"
    using f s assms(1) by (simp add: columnType_def startsWith_def)
  from f c show ?thesis by (auto simp: interpolate_def)
qed

text \<open>The \<open>status\<close> column of the sample catalog.\<close>

theorem enum_lookup_succeeds_witness:
  "type (snd (sampleColumns ! 1)) = ''USER-DEFINED'' \<and> sampleEnums ! 0 \<in> set sampleEnums
     \<and> key (sampleEnums ! 0) = udt (snd (sampleColumns ! 1))
     \<and> columnType (withNames toIdentifier sampleEnums) (snd (sampleColumns ! 1)) = Some ''StatusType''"
proof -
  have h1: "type (snd (sampleColumns ! 1)) = ''USER-DEFINED''" by (simp add: sampleColumns_def)
  have h2: "sampleEnums ! 0 \<in> set sampleEnums" by (simp add: sampleEnums_def)
  have h3: "key (sampleEnums ! 0) = udt (snd (sampleColumns ! 1))"
    by (simp add: sampleEnums_def sampleColumns_def)
  have n: "toIdentifier (key (sampleEnums ! 0)) = ''StatusType''"
    by code_simp
  show ?thesis
    using h1 h2 h3 enum_lookup_succeeds [OF h1 h2 h3, of toIdentifier] n by simp
qed

section \<open>The text of the document\<close>

lemma join_append:
  "xs \<noteq> [] \<Longrightarrow> ys \<noteq> [] \<Longrightarrow> join sep (xs @ ys) = join sep xs @ sep @ join sep ys"
proof (induction xs rule: join.induct [of _ sep])
  case (1 sep)
  then show ?case by simp
next
  case (2 sep x)
  then show ?case by (cases ys) simp_all
next
  case (3 sep x y zs)
  then show ?case by simp
qed

lemma join_concat:
  "\<forall>b\<in>set bs. b \<noteq> [] \<Longrightarrow> join sep (concat bs) = join sep (map (join sep) bs)"
proof (induction bs)
  case Nil
  then show ?case by simp
next
  case (Cons b bs)
  show ?case
  proof (cases bs)
    case Nil
    then show ?thesis by simp
  next
    case (Cons c cs)
    have b: "b \<noteq> []" and c: "concat bs \<noteq> []"
      using Cons.prems Cons by auto
    have "join sep (concat (b # bs)) = join sep b @ sep @ join sep (concat bs)"
      using join_append [OF b c] by simp
    also have "\<dots> = join sep b @ sep @ join sep (map (join sep) bs)"
      using Cons.IH Cons.prems by simp
    finally show ?thesis
      using Cons by simp
  qed
qed

lemma endsWith_append: "endsWith w s \<Longrightarrow> endsWith (v @ w) s"
  by (auto simp: endsWith_def)

lemma endsWith_join_last: "endsWith (join sep (xs @ [l])) l"
proof (induction xs)
  case Nil
  then show ?case by (simp add: endsWith_def)
next
  case (Cons x xs)
  have "join sep ((x # xs) @ [l]) = x @ sep @ join sep (xs @ [l])"
    by (cases xs) simp_all
  then show ?case
    using Cons endsWith_append [of "join sep (xs @ [l])" l "x @ sep"] by simp
qed

lemma enumBlock_text: "endsWith (join sep (enumBlock toId rows k)) ''}\<newline>''"
  using endsWith_join_last [of sep "butlast (enumBlock toId rows k)" "''}\<newline>''"]
  by (simp add: enumBlock_def butlast_append)

lemma recordBlock_text: "endsWith (join sep (recordBlock toId rows columns t)) ''};\<newline>''"
  using endsWith_join_last [of sep "butlast (recordBlock toId rows columns t)" "''};\<newline>''"]
  by (simp add: recordBlock_def butlast_append)

lemma sorted_tables:
  fixes pcs :: "(nat \<times> column) list"
  assumes "sorted (map (\<lambda>pc. (table (snd pc), fst pc)) pcs)"
  shows "sorted (map table (map snd pcs))"
proof -
  have "sorted_wrt (\<lambda>a b. (table (snd a), fst a) \<le> (table (snd b), fst b)) pcs"
    using assms by (simp add: sorted_map)
  then have "sorted_wrt (\<lambda>a b. table (snd a) \<le> table (snd b)) pcs"
    by (rule sorted_wrt_mono_rel [rotated]) auto
  then show ?thesis
    by (simp add: sorted_map comp_def)
qed

lemma sorted_positions:
  fixes pcs :: "(nat \<times> column) list"
  assumes "sorted (map (\<lambda>pc. (table (snd pc), fst pc)) pcs)"
  shows "sorted (map fst (filter (\<lambda>pc. table (snd pc) = t) pcs))"
proof -
  have "sorted_wrt (\<lambda>a b. (table (snd a), fst a) \<le> (table (snd b), fst b)) pcs"
    using assms by (simp add: sorted_map)
  then have "sorted_wrt (\<lambda>a b. (table (snd a), fst a) \<le> (table (snd b), fst b))
               (filter (\<lambda>pc. table (snd pc) = t) pcs)"
    by (rule sorted_wrt_filter)
  then have "sorted_wrt (\<lambda>a b. fst a \<le> fst b) (filter (\<lambda>pc. table (snd pc) = t) pcs)"
    by (rule sorted_wrt_mono_rel [rotated]) auto
  then show ?thesis
    by (simp add: sorted_map)
qed

text \<open>
  C6, as the code has it. For enum rows sorted by key and column rows, each with its
  ordinal position, sorted by table name and then position: the lines are the enum
  blocks followed by the record blocks; the tables of the record blocks ascend
  strictly; the fields of a block are those of the rows of its table, whose positions
  ascend; the text of every block ends with its closing line and a line feed; and the
  document is the texts of the blocks joined by a line feed, so that one blank line
  separates a block from the next.
\<close>

theorem document_order:
  fixes pcs :: "(nat \<times> column) list"
  assumes "sorted (map key rows)"
    and "sorted (map (\<lambda>pc. (table (snd pc), fst pc)) pcs)"
  shows "generatedLines toId rows (map snd pcs)
           = concat (map (enumBlock toId rows) (remdups_adj (map key rows)))
             @ concat (map (recordBlock toId rows (map snd pcs))
                 (remdups_adj (map table (map snd pcs))))
    \<and> generatedText toId rows (map snd pcs)
           = document (map (enumBlock toId rows) (remdups_adj (map key rows))
               @ map (recordBlock toId rows (map snd pcs)) (remdups_adj (map table (map snd pcs))))
    \<and> sorted_wrt (<) (remdups_adj (map table (map snd pcs)))
    \<and> (\<forall>t. filter (\<lambda>c. table c = t) (map snd pcs) = map snd (filter (\<lambda>pc. table (snd pc) = t) pcs)
           \<and> sorted (map fst (filter (\<lambda>pc. table (snd pc) = t) pcs)))
    \<and> (\<forall>k. endsWith (join ''\<newline>'' (enumBlock toId rows k)) ''}\<newline>'')
    \<and> (\<forall>t. endsWith (join ''\<newline>'' (recordBlock toId rows (map snd pcs) t)) ''};\<newline>'')"
proof -
  let ?cols = "map snd pcs"
  let ?eb = "map (enumBlock toId rows) (remdups_adj (map key rows))"
  let ?rb = "map (recordBlock toId rows ?cols) (remdups_adj (map table ?cols))"
  have st: "sorted (map table ?cols)"
    using assms(2) by (rule sorted_tables)
  have lines: "generatedLines toId rows ?cols = concat ?eb @ concat ?rb"
    by (simp only: generatedLines_def Let_def enumLines_blocks [OF assms(1)]
        recordLines_blocks [OF st])
  have ne: "\<forall>b\<in>set (?eb @ ?rb). b \<noteq> []"
    by (auto simp: enumBlock_def recordBlock_def)
  have "generatedText toId rows ?cols = join ''\<newline>'' (concat (?eb @ ?rb))"
    by (simp add: generatedText_def lines)
  also have "\<dots> = document (?eb @ ?rb)"
    unfolding document_def using ne by (rule join_concat)
  finally have doc: "generatedText toId rows ?cols = document (?eb @ ?rb)" .
  have asc: "sorted_wrt (<) (remdups_adj (map table ?cols))"
    using st by (simp add: strict_sorted_iff sorted_remdups_adj_distinct)
  have fields: "\<forall>t. filter (\<lambda>c. table c = t) ?cols = map snd (filter (\<lambda>pc. table (snd pc) = t) pcs)
           \<and> sorted (map fst (filter (\<lambda>pc. table (snd pc) = t) pcs))"
    using sorted_positions [OF assms(2)] by (simp add: filter_map comp_def)
  from lines doc asc fields enumBlock_text recordBlock_text show ?thesis
    by blast
qed

text \<open>The sample catalog: two enum blocks, then the blocks of \<open>invoices\<close> and \<open>x_s\<close>.\<close>

theorem document_order_witness:
  "sorted (map key sampleEnums)
   \<and> sorted (map (\<lambda>pc. (table (snd pc), fst pc)) sampleColumns)
   \<and> remdups_adj (map table (map snd sampleColumns)) = [''invoices'', ''x_s'']
   \<and> map fst (filter (\<lambda>pc. table (snd pc) = ''invoices'') sampleColumns) = [1, 2]
   \<and> generatedLines toIdentifier sampleEnums (map snd sampleColumns)
       = concat (map (enumBlock toIdentifier sampleEnums) [''status_type'', ''unit''])
         @ concat (map (recordBlock toIdentifier sampleEnums (map snd sampleColumns))
             [''invoices'', ''x_s''])"
proof -
  have h1: "sorted (map key sampleEnums)"
    by (simp add: sampleEnums_def)
  have h2: "sorted (map (\<lambda>pc. (table (snd pc), fst pc)) sampleColumns)"
    by (simp add: sampleColumns_def)
  have k: "remdups_adj (map key sampleEnums) = [''status_type'', ''unit'']"
    by (simp add: sampleEnums_def)
  have t: "remdups_adj (map table (map snd sampleColumns)) = [''invoices'', ''x_s'']"
    by (simp add: sampleColumns_def)
  have p: "map fst (filter (\<lambda>pc. table (snd pc) = ''invoices'') sampleColumns) = [1, 2]"
    by (simp add: sampleColumns_def)
  from document_order [OF h1 h2, of toIdentifier]
  have "generatedLines toIdentifier sampleEnums (map snd sampleColumns)
           = concat (map (enumBlock toIdentifier sampleEnums) (remdups_adj (map key sampleEnums)))
             @ concat (map (recordBlock toIdentifier sampleEnums (map snd sampleColumns))
                 (remdups_adj (map table (map snd sampleColumns))))"
    by blast
  with h1 h2 k t p show ?thesis by simp
qed

text \<open>
  C6 as stated has a blank line after every block. \<open>join\<close> puts nothing after the last
  line, so the text ends with the closing line of the last block and one line feed.
\<close>

theorem last_block_counterexample:
  "generatedText toIdentifier [\<lparr>key = ''unit'', val = ''kg''\<rparr>] []
     = ''export enum Unit {\<newline>  kg = '' @ [CHR 0x22] @ ''kg'' @ [CHR 0x22] @ '',\<newline>}\<newline>''
   \<and> \<not> endsWith (generatedText toIdentifier [\<lparr>key = ''unit'', val = ''kg''\<rparr>] []) ''\<newline>\<newline>''"
  by code_simp

section \<open>The file without the anchor\<close>

lemma findFrom_occurs:
  "findFrom b source = Some i \<Longrightarrow> \<exists>p s. source = p @ anchor @ s"
proof (induction source arbitrary: b i)
  case Nil
  then show ?case by simp
next
  case (Cons c cs)
  show ?case
  proof (cases "b \<and> startsWith (c # cs) anchor \<and> length anchor < length (c # cs)")
    case True
    then have "take (length anchor) (c # cs) = anchor" by (simp add: startsWith_def)
    then have "c # cs = [] @ anchor @ drop (length anchor) (c # cs)"
      by (metis append_Nil append_take_drop_id)
    then show ?thesis by blast
  next
    case False
    with Cons.prems obtain j where "findFrom (isLineTerminator c) cs = Some j"
      by (auto split: if_splits)
    from Cons.IH [OF this] obtain p s where "cs = p @ anchor @ s" by blast
    then have "c # cs = (c # p) @ anchor @ s" by simp
    then show ?thesis by blast
  qed
qed

lemma anchor_absent_no_match:
  "\<not> (\<exists>p s. source = p @ anchor @ s) \<Longrightarrow> findAnchor source = None"
  unfolding findAnchor_def using findFrom_occurs [of True source]
  by (cases "findFrom True source") auto

text \<open>
  C1, as the code has it. When the pattern has no match in the text of the file, the
  run does not fail: \<open>replace\<close> returns the text as it is and \<open>writeFileSync\<close> writes it
  back, so the file keeps its content and one write is performed.
\<close>

theorem no_match_writes_text_back:
  assumes "enumQuery w = Inr rows" and "columnQuery w = Inr columns"
    and "fileText w = Some text" and "writable w" and "findAnchor text = None"
  shows "updateTypes toId w = (Inr (), w\<lparr>fileText := Some text, writes := writes w @ [text]\<rparr>)"
  using assms by (simp add: updateTypes_def generate_def patch_def)

text \<open>A file of one line that is not the anchor.\<close>

theorem no_match_writes_text_back_witness:
  "enumQuery (sampleWorld ''const x = 1;\<newline>'') = Inr sampleEnums
   \<and> columnQuery (sampleWorld ''const x = 1;\<newline>'') = Inr (map snd sampleColumns)
   \<and> fileText (sampleWorld ''const x = 1;\<newline>'') = Some ''const x = 1;\<newline>''
   \<and> writable (sampleWorld ''const x = 1;\<newline>'')
   \<and> findAnchor ''const x = 1;\<newline>'' = None
   \<and> updateTypes toIdentifier (sampleWorld ''const x = 1;\<newline>'')
       = (Inr (), (sampleWorld ''const x = 1;\<newline>'')
            \<lparr>fileText := Some ''const x = 1;\<newline>'', writes := [''const x = 1;\<newline>'']\<rparr>)"
proof -
  let ?w = "sampleWorld ''const x = 1;\<newline>''"
  have h1: "enumQuery ?w = Inr sampleEnums" by (simp add: sampleWorld_def)
  have h2: "columnQuery ?w = Inr (map snd sampleColumns)" by (simp add: sampleWorld_def)
  have h3: "fileText ?w = Some ''const x = 1;\<newline>''" by (simp add: sampleWorld_def)
  have h4: "writable ?w" by (simp add: sampleWorld_def)
  have h5: "findAnchor ''const x = 1;\<newline>'' = None"
    by (simp add: findAnchor_def startsWith_def anchor_def isLineTerminator_def)
  have w: "writes ?w = []" by (simp add: sampleWorld_def)
  show ?thesis
    using h1 h2 h3 h4 h5 no_match_writes_text_back [OF h1 h2 h3 h4 h5, of toIdentifier] w
    by simp
qed

text \<open>
  C1 as stated has the run fail with no write. On a text without the anchor the run
  succeeds and writes the text.
\<close>

theorem missing_anchor_counterexample:
  "findAnchor ''const x = 1;\<newline>'' = None
   \<and> fst (updateTypes toIdentifier (sampleWorld ''const x = 1;\<newline>'')) = Inr ()
   \<and> writes (snd (updateTypes toIdentifier (sampleWorld ''const x = 1;\<newline>'')))
       = [''const x = 1;\<newline>'']"
  by (simp add: updateTypes_def generate_def patch_def sampleWorld_def Let_def
      findAnchor_def startsWith_def anchor_def isLineTerminator_def)

section \<open>The end of the process\<close>

lemma successful_run_disconnects:
  "fst (updateTypes toId w) = Inr u \<Longrightarrow> \<not> connected (main toId w)"
  by (auto simp: main_def split: prod.splits sum.splits)

lemma rejected_run_stays_connected:
  "fst (updateTypes toId w) = Inl e \<Longrightarrow> connected (main toId w) = connected w"
  by (auto simp: main_def updateTypes_def Let_def split: prod.splits sum.splits option.splits if_splits)

text \<open>
  C7 at a run whose first query is rejected: the \<open>catch\<close> callback prints the error and
  exits with code 1, and the connection is still open, since the \<open>finally\<close> callback
  with \<open>db.destroy()\<close> never runs.
\<close>

theorem failed_run_keeps_connection:
  "fst (updateTypes toIdentifier failingWorld) = Inl QueryError
   \<and> connected failingWorld
   \<and> main toIdentifier failingWorld
       = failingWorld\<lparr>stderr := [QueryError], exitCode := Some 1\<rparr>
   \<and> connected (main toIdentifier failingWorld)"
  by (simp add: main_def updateTypes_def generate_def failingWorld_def sampleWorld_def)

section \<open>Two runs\<close>
















end
